theory Spec2Isabelle
  imports Main "HOL-Library.Word"
begin

section \<open>Bytes, the size field and uninitialised storage\<close>

text \<open>
  The program of \<^verbatim>\<open>archivator.cpp\<close> moves C++ \<^verbatim>\<open>char\<close>s between files. A byte is a
  HOL \<^typ>\<open>char\<close> (eight bits), a file's content and a stream are lists of them, and a
  file name (a \<^verbatim>\<open>std::string\<close>) is a \<^typ>\<open>string\<close>.
\<close>

type_synonym bytes = "char list"

definition NUL :: char where
  "NUL = CHR 0x00"

text \<open>
  \<^verbatim>\<open>archive.write(reinterpret_cast<const char*>(&fileInfo.size), sizeof(std::uintmax_t))\<close>
  copies the eight bytes of the object representation of a 64-bit unsigned integer. The
  byte order is the platform's; the model fixes the little-endian order of x86-64.
\<close>

fun bytes_le :: "nat \<Rightarrow> nat \<Rightarrow> bytes" where
  "bytes_le 0 v = []"
| "bytes_le (Suc k) v = char_of (v mod 256) # bytes_le k (v div 256)"

fun le_nat :: "bytes \<Rightarrow> nat" where
  "le_nat [] = 0"
| "le_nat (b # bs) = of_char b + 256 * le_nat bs"

definition encode_size :: "64 word \<Rightarrow> bytes" where
  "encode_size w = bytes_le 8 (unat w)"

definition decode_size :: "bytes \<Rightarrow> 64 word" where
  "decode_size bs = of_nat (le_nat bs)"

text \<open>
  \<^verbatim>\<open>FileInfo fileInfo;\<close> and \<^verbatim>\<open>new char[n]\<close> give storage whose bytes are indeterminate.
  The model takes them from a parameter: \<open>junk k i\<close> is the initial value of byte \<open>i\<close> of
  the \<open>k\<close>-th object the run creates. Theorems quantify over it.
\<close>

type_synonym junk = "nat \<Rightarrow> nat \<Rightarrow> char"

definition fresh :: "junk \<Rightarrow> nat \<Rightarrow> nat \<Rightarrow> bytes" where
  "fresh jk k n = map (jk k) [0..<n]"

section \<open>Streams\<close>

text \<open>
  An input file stream: the bytes not yet extracted, \<^verbatim>\<open>eofbit\<close> and \<^verbatim>\<open>failbit\<close>.
  Every extraction starts with a sentry: on a stream that is not \<^verbatim>\<open>good()\<close> it sets
  \<^verbatim>\<open>failbit\<close> and extracts nothing.
\<close>

record istream =
  ibuf :: bytes
  ieof :: bool
  ifail :: bool

definition igood :: "istream \<Rightarrow> bool" where
  "igood s = (\<not> ieof s \<and> \<not> ifail s)"

definition opened :: "bytes \<Rightarrow> istream" where
  "opened bs = \<lparr>ibuf = bs, ieof = False, ifail = False\<rparr>"

text \<open>
  \<^verbatim>\<open>std::getline(archive, fileInfo.filename, '\0')\<close> into an empty string: characters are
  extracted up to the delimiter, which is extracted and dropped, or up to the end of the
  stream, which sets \<^verbatim>\<open>eofbit\<close>; \<^verbatim>\<open>failbit\<close> is set when nothing at all was extracted.
\<close>

definition getline :: "istream \<Rightarrow> string \<times> istream" where
  "getline s =
     (if \<not> igood s then ([], s\<lparr>ifail := True\<rparr>)
      else
        (case dropWhile (\<lambda>c. c \<noteq> NUL) (ibuf s) of
           [] \<Rightarrow> (ibuf s, s\<lparr>ibuf := [], ieof := True, ifail := (ibuf s = [])\<rparr>)
         | d # rest \<Rightarrow> (takeWhile (\<lambda>c. c \<noteq> NUL) (ibuf s), s\<lparr>ibuf := rest\<rparr>)))"

text \<open>
  \<^verbatim>\<open>archive.read(p, n)\<close> into storage that holds \<open>init\<close> (of length \<open>n\<close>): the bytes
  extracted overwrite the front of the storage; extracting fewer than \<open>n\<close> sets
  \<^verbatim>\<open>eofbit\<close> and \<^verbatim>\<open>failbit\<close> and leaves the rest of the storage as it was.
\<close>

definition sread :: "nat \<Rightarrow> bytes \<Rightarrow> istream \<Rightarrow> bytes \<times> istream" where
  "sread n init s =
     (if \<not> igood s then (init, s\<lparr>ifail := True\<rparr>)
      else if n \<le> length (ibuf s) then (take n (ibuf s), s\<lparr>ibuf := drop n (ibuf s)\<rparr>)
      else (ibuf s @ drop (length (ibuf s)) init, s\<lparr>ibuf := [], ieof := True, ifail := True\<rparr>))"

text \<open>
  An output file stream: the bytes written so far and \<^verbatim>\<open>failbit\<close>. A stream whose
  \<^verbatim>\<open>failbit\<close> is set writes nothing. \<^verbatim>\<open>archive << inputFile.rdbuf()\<close> copies the whole
  input file, and sets \<^verbatim>\<open>failbit\<close> on the output stream when it has inserted no
  character at all, which is what an empty input file gives.
\<close>

record ostream =
  obuf :: bytes
  ofail :: bool

definition created :: ostream where
  "created = \<lparr>obuf = [], ofail = False\<rparr>"

definition owrite :: "bytes \<Rightarrow> ostream \<Rightarrow> ostream" where
  "owrite bs os = (if ofail os then os else os\<lparr>obuf := obuf os @ bs\<rparr>)"

definition put_rdbuf :: "istream \<Rightarrow> ostream \<Rightarrow> ostream" where
  "put_rdbuf inp os =
     (if ofail os then os
      else if ibuf inp = [] then os\<lparr>ofail := True\<rparr>
      else os\<lparr>obuf := obuf os @ ibuf inp\<rparr>)"

text \<open>
  \<^verbatim>\<open>strcmp\<close> on two character buffers: it stops at the first position where the bytes
  differ or where both are zero. It knows no length: when it runs past the end of a
  buffer the behaviour is undefined, which is the value \<open>None\<close>.
\<close>

fun strcmp :: "bytes \<Rightarrow> bytes \<Rightarrow> int option" where
  "strcmp (a # as) (b # bs) =
     (if a \<noteq> b then Some (int (of_char a) - int (of_char b))
      else if a = NUL then Some 0
      else strcmp as bs)"
| "strcmp _ _ = None"

section \<open>The file system as the program sees it\<close>

text \<open>
  The source folder is what \<^verbatim>\<open>fs::recursive_directory_iterator(folderPath)\<close> yields, in
  its order: for every entry the directories between the folder and the entry, its file
  name, what kind of entry it is, and for a regular file its bytes and whether it can be
  opened for reading. An entry is \<open>Regular\<close> when \<^verbatim>\<open>fs::is_regular_file\<close> holds of it (a
  regular file, or a symbolic link to one), \<open>Broken\<close> when it is a symbolic link to
  nothing, for which \<^verbatim>\<open>fs::exists\<close> is false. \<open>is_dir\<close> is false when \<^verbatim>\<open>folderPath\<close> is no
  directory; the iterator then throws. The archive file and the target folder lie
  outside the source folder.

  \<open>elsewhere\<close> is the answer of the file system for \<^verbatim>\<open>folderPath + "/" + name\<close> when
  \<open>name\<close> is not a plain file name: a name with a \<^verbatim>\<open>/\<close> in it, or \<^verbatim>\<open>.\<close> or \<^verbatim>\<open>..\<close>, is
  resolved through directories, also ones outside the folder, and the model takes what
  is found there as given.
\<close>

datatype kind = Regular | Directory | Broken | Other

record dir_entry =
  parent :: "string list"
  name :: string
  kind :: kind
  content :: bytes
  readable :: bool

record folder =
  is_dir :: bool
  entries :: "dir_entry list"
  elsewhere :: "string \<Rightarrow> dir_entry option"

text \<open>
  What ends a run abnormally: an exception of \<^verbatim>\<open>std::filesystem\<close> or of \<^verbatim>\<open>new\<close> that
  nothing catches, and a read past the end of a buffer.
\<close>

datatype fault = FilesystemError | BadAlloc | OutOfBounds

text \<open>
  \<^verbatim>\<open>new char[n]\<close>: \<open>mem\<close> is the size of the largest array the machine hands out; for a
  larger one \<^verbatim>\<open>new\<close> throws \<^verbatim>\<open>std::bad_alloc\<close>. The array's bytes are indeterminate.
\<close>

definition new_chars :: "junk \<Rightarrow> nat \<Rightarrow> nat \<Rightarrow> nat \<Rightarrow> fault + bytes" where
  "new_chars jk mem k n = (if n \<le> mem then Inr (fresh jk k n) else Inl BadAlloc)"

text \<open>
  The path of an entry as the iterator gives it, \<^verbatim>\<open>folderPath + "/" +\<close> this string; and
  the entry that such a path names.
\<close>

definition rel_string :: "dir_entry \<Rightarrow> string" where
  "rel_string e = concat (map (\<lambda>d. d @ ''/'') (parent e)) @ name e"

definition entry_at :: "folder \<Rightarrow> string \<Rightarrow> dir_entry option" where
  "entry_at F p = (if is_dir F then find (\<lambda>e. rel_string e = p) (entries F) else None)"

text \<open>
  \<^verbatim>\<open>folderPath + "/" + name\<close> for a name read from an archive: a plain file name is an
  entry directly in the folder, or nothing.
\<close>

definition plain_name :: "string \<Rightarrow> bool" where
  "plain_name n = (n \<noteq> [] \<and> CHR ''/'' \<notin> set n \<and> n \<noteq> ''.'' \<and> n \<noteq> ''..'')"

definition lookup :: "folder \<Rightarrow> string \<Rightarrow> dir_entry option" where
  "lookup F n =
     (if \<not> is_dir F then None
      else if plain_name n then find (\<lambda>e. parent e = [] \<and> name e = n) (entries F)
      else elsewhere F n)"

definition exists_path :: "folder \<Rightarrow> string \<Rightarrow> bool" where
  "exists_path F n = (case lookup F n of None \<Rightarrow> False | Some e \<Rightarrow> kind e \<noteq> Broken)"

text \<open>\<^verbatim>\<open>fs::file_size\<close> throws on a path that is no regular file.\<close>

definition file_size :: "folder \<Rightarrow> string \<Rightarrow> fault + 64 word" where
  "file_size F n =
     (case lookup F n of
        None \<Rightarrow> Inl FilesystemError
      | Some e \<Rightarrow>
          if kind e = Regular then Inr (of_nat (length (content e))) else Inl FilesystemError)"

text \<open>
  \<^verbatim>\<open>std::ifstream f(path, std::ios::binary)\<close> on what the path names; \<open>None\<close> when
  \<^verbatim>\<open>is_open()\<close> is false.
\<close>

definition ifstream :: "dir_entry option \<Rightarrow> istream option" where
  "ifstream found =
     (case found of
        None \<Rightarrow> None
      | Some e \<Rightarrow> if kind e = Regular \<and> readable e then Some (opened (content e)) else None)"

definition regular_entries :: "folder \<Rightarrow> dir_entry list" where
  "regular_entries F = filter (\<lambda>e. kind e = Regular) (entries F)"

record FileInfo =
  filename :: string
  path :: string
  fsize :: "64 word"

text \<open>The loop of lines 56 to 64 of the source: one \<^verbatim>\<open>FileInfo\<close> per regular file.\<close>

definition file_info :: "dir_entry \<Rightarrow> FileInfo" where
  "file_info e = \<lparr>filename = name e, path = rel_string e, fsize = of_nat (length (content e))\<rparr>"

definition collect :: "folder \<Rightarrow> fault + FileInfo list" where
  "collect F = (if is_dir F then Inr (map file_info (regular_entries F)) else Inl FilesystemError)"

text \<open>
  The file at \<^verbatim>\<open>archiveName\<close>: its bytes when it exists, and whether opening it for
  reading and for writing succeeds.
\<close>

record disk_file =
  fcontent :: "bytes option"
  fread_ok :: bool
  fwrite_ok :: bool

definition open_disk :: "disk_file \<Rightarrow> istream option" where
  "open_disk a =
     (case fcontent a of
        None \<Rightarrow> None
      | Some bs \<Rightarrow> if fread_ok a then Some (opened bs) else None)"

text \<open>
  The folder at \<^verbatim>\<open>targetFolder\<close>: whether \<^verbatim>\<open>fs::create_directories\<close> succeeds, for which
  names \<^verbatim>\<open>std::ofstream(targetFolder + "/" + name)\<close> opens, and the files in it by the
  name they were written under.
\<close>

record target =
  can_mkdir :: bool
  creatable :: "string \<Rightarrow> bool"
  tfiles :: "string \<rightharpoonup> bytes"

section \<open>Messages\<close>

definition msg_skipping :: string where
  "msg_skipping = ''Archive already exists and contains identical files. Skipping archiving.''"

definition msg_archive_write :: string where
  "msg_archive_write = ''Failed to open archive for writing.''"

definition msg_open_file :: "string \<Rightarrow> string" where
  "msg_open_file n = ''Failed to open file: '' @ n"

definition msg_archived :: string where
  "msg_archived = ''Archiving complete.''"

definition msg_archive_read :: string where
  "msg_archive_read = ''Failed to open archive for reading.''"

definition msg_create_file :: "string \<Rightarrow> string" where
  "msg_create_file n = ''Failed to create file: '' @ n"

definition msg_unarchived :: string where
  "msg_unarchived = ''Unarchiving complete.''"

section \<open>checkArchive\<close>

text \<open>
  The loop of lines 127 to 157 either leaves the function with \<^verbatim>\<open>false\<close> (a missing
  file, a size that differs, a comparison that is not zero) or ends with the records it
  has read in \<^verbatim>\<open>archivedFiles\<close>. It ends by the length of what is left of the stream:
  a name that is not empty has taken at least one byte.
\<close>

datatype scan_result = Mismatch | Matched "FileInfo list"

lemma length_dropWhile_Cons:
  "dropWhile P xs = d # rest \<Longrightarrow> length rest < length xs"
  using length_dropWhile_le [of P xs] by simp

lemma getline_shorter:
  "getline s = (n, s1) \<Longrightarrow> n \<noteq> [] \<Longrightarrow> length (ibuf s1) < length (ibuf s)"
  unfolding getline_def
  by (auto split: if_splits list.splits dest: length_dropWhile_Cons)

lemma sread_shorter:
  "sread n init s = (b, s1) \<Longrightarrow> length (ibuf s1) \<le> length (ibuf s)"
  by (auto simp: sread_def split: if_splits)

function check_records ::
  "junk \<Rightarrow> nat \<Rightarrow> nat \<Rightarrow> folder \<Rightarrow> istream \<Rightarrow> FileInfo list \<Rightarrow> fault + scan_result" where
  "check_records jk mem k F s acc =
     (if ieof s then Inr (Matched acc)
      else
        (case getline s of (fname, s1) \<Rightarrow>
           if fname = [] then Inr (Matched acc)
           else
             (case sread 8 (fresh jk k 8) s1 of (szb, s2) \<Rightarrow>
                if \<not> exists_path F fname then Inr Mismatch
                else
                  (case file_size F fname of
                     Inl f \<Rightarrow> Inl f
                   | Inr fsz \<Rightarrow>
                       if fsz \<noteq> decode_size szb then Inr Mismatch
                       else
                         (case new_chars jk mem (k + 1) (unat (decode_size szb)) of
                            Inl f \<Rightarrow> Inl f
                          | Inr a0 \<Rightarrow>
                         (case new_chars jk mem (k + 2) (unat fsz) of
                            Inl f \<Rightarrow> Inl f
                          | Inr f0 \<Rightarrow>
                         (case sread (unat (decode_size szb)) a0 s2 of
                            (bufferArchive, s3) \<Rightarrow>
                              (case strcmp bufferArchive
                                      (case ifstream (lookup F fname) of
                                         None \<Rightarrow> f0
                                       | Some folderFile \<Rightarrow>
                                           fst (sread (unat fsz) f0 folderFile)) of
                                 None \<Rightarrow> Inl OutOfBounds
                               | Some r \<Rightarrow>
                                   if r \<noteq> 0 then Inr Mismatch
                                   else check_records jk mem (k + 3) F s3
                                          (acc @ [\<lparr>filename = fname, path = [],
                                                   fsize = decode_size szb\<rparr>])))))))))"
  by pat_completeness auto
termination
proof (relation "measure (\<lambda>(jk, mem, k, F, s, acc). length (ibuf s))", goal_cases)
  case 1
  show ?case by simp
next
  case prems: (2 jk mem k F s acc x y xa ya b a0 f0 xb yb x2)
  have a: "length (ibuf y) < length (ibuf s)"
    using getline_shorter [of s x y] prems(2,3) by simp
  have b: "length (ibuf ya) \<le> length (ibuf y)"
    using sread_shorter [of 8 _ y xa ya] prems(4) by simp
  have c: "length (ibuf yb) \<le> length (ibuf ya)"
    using sread_shorter [of _ _ ya xb yb] prems(10) by simp
  show ?case
    using a b c by simp
qed

declare check_records.simps [simp del]

text \<open>
  \<^verbatim>\<open>counterOfFiles\<close> is an \<^verbatim>\<open>int\<close> and the number of records is cast to \<^verbatim>\<open>int\<close>: both
  are 32-bit values here, compared as such.
\<close>

definition checkArchive :: "junk \<Rightarrow> nat \<Rightarrow> disk_file \<Rightarrow> folder \<Rightarrow> fault + bool" where
  "checkArchive jk mem a F =
     (case open_disk a of
        None \<Rightarrow> Inr False
      | Some s \<Rightarrow>
          (case check_records jk mem 0 F s [] of
             Inl f \<Rightarrow> Inl f
           | Inr Mismatch \<Rightarrow> Inr False
           | Inr (Matched archivedFiles) \<Rightarrow>
               if \<not> is_dir F then Inl FilesystemError
               else if (of_nat (length (regular_entries F)) :: 32 word)
                         \<noteq> of_nat (length archivedFiles)
               then Inr False
               else Inr True))"

section \<open>archiveFiles\<close>

text \<open>
  The loop of lines 67 to 80: the name, the delimiter and the size go to the archive
  before the input file is opened; when it does not open, the loop goes on to the next
  file.
\<close>

fun write_records :: "folder \<Rightarrow> FileInfo list \<Rightarrow> ostream \<times> string list \<Rightarrow> ostream \<times> string list" where
  "write_records F [] (os, log) = (os, log)"
| "write_records F (fileInfo # files) (os, log) =
     (let os1 = owrite (encode_size (fsize fileInfo))
                  (owrite [NUL] (owrite (filename fileInfo) os))
      in case ifstream (entry_at F (path fileInfo)) of
           None \<Rightarrow> write_records F files (os1, log @ [msg_open_file (filename fileInfo)])
         | Some inputFile \<Rightarrow> write_records F files (put_rdbuf inputFile os1, log))"

definition archiveFiles ::
  "junk \<Rightarrow> nat \<Rightarrow> folder \<Rightarrow> disk_file \<Rightarrow> fault + disk_file \<times> string list" where
  "archiveFiles jk mem F a =
     (case checkArchive jk mem a F of
        Inl f \<Rightarrow> Inl f
      | Inr same \<Rightarrow>
          if same then Inr (a, [msg_skipping])
          else if \<not> fwrite_ok a then Inr (a, [msg_archive_write])
          else
            (case collect F of
               Inl f \<Rightarrow> Inl f
             | Inr files \<Rightarrow>
                 (case write_records F files (created, []) of
                    (os, log) \<Rightarrow> Inr (a\<lparr>fcontent := Some (obuf os)\<rparr>, log @ [msg_archived]))))"

section \<open>unarchiveFiles\<close>

text \<open>
  The loop of lines 96 to 113. When the output file does not open the loop goes on
  without reading the record's bytes. Otherwise a buffer of the declared size is
  allocated, filled from the stream as far as the stream goes, and written whole.
\<close>

function unarchive_records ::
  "junk \<Rightarrow> nat \<Rightarrow> nat \<Rightarrow> istream \<Rightarrow> target \<Rightarrow> string list \<Rightarrow> fault + target \<times> string list" where
  "unarchive_records jk mem k s T log =
     (if ieof s then Inr (T, log)
      else
        (case getline s of (fname, s1) \<Rightarrow>
           if fname = [] then Inr (T, log)
           else
             (case sread 8 (fresh jk k 8) s1 of (szb, s2) \<Rightarrow>
                if \<not> creatable T fname
                then unarchive_records jk mem (k + 1) s2 T (log @ [msg_create_file fname])
                else
                  (case new_chars jk mem (k + 1) (unat (decode_size szb)) of
                     Inl f \<Rightarrow> Inl f
                   | Inr b0 \<Rightarrow>
                  (case sread (unat (decode_size szb)) b0 s2 of
                     (buffer, s3) \<Rightarrow>
                       unarchive_records jk mem (k + 2) s3
                         (T\<lparr>tfiles := (tfiles T)(fname \<mapsto> buffer)\<rparr>) log)))))"
  by pat_completeness auto
termination
proof (relation "measure (\<lambda>(jk, mem, k, s, T, log). length (ibuf s))", goal_cases)
  case 1
  show ?case by simp
next
  case prems: (2 jk mem k s T log x y xa ya)
  have a: "length (ibuf y) < length (ibuf s)"
    using getline_shorter [of s x y] prems(2,3) by simp
  have b: "length (ibuf ya) \<le> length (ibuf y)"
    using sread_shorter [of 8 _ y xa ya] prems(4) by simp
  show ?case
    using a b by simp
next
  case prems: (3 jk mem k s T log x y xa ya b0 xb yb)
  have a: "length (ibuf y) < length (ibuf s)"
    using getline_shorter [of s x y] prems(2,3) by simp
  have b: "length (ibuf ya) \<le> length (ibuf y)"
    using sread_shorter [of 8 _ y xa ya] prems(4) by simp
  have c: "length (ibuf yb) \<le> length (ibuf ya)"
    using sread_shorter [of _ _ ya xb yb] prems(7) by simp
  show ?case
    using a b c by simp
qed

declare unarchive_records.simps [simp del]

definition unarchiveFiles ::
  "junk \<Rightarrow> nat \<Rightarrow> disk_file \<Rightarrow> target \<Rightarrow> fault + target \<times> string list" where
  "unarchiveFiles jk mem a T =
     (case open_disk a of
        None \<Rightarrow> Inr (T, [msg_archive_read])
      | Some s \<Rightarrow>
          if \<not> can_mkdir T then Inl FilesystemError
          else
            (case unarchive_records jk mem 0 s T [] of
               Inl f \<Rightarrow> Inl f
             | Inr (T', log) \<Rightarrow> Inr (T', log @ [msg_unarchived])))"

section \<open>The record format and the files of a folder\<close>

text \<open>
  The format of one record as the specification words it: the file name, one
  terminator byte, the size as eight bytes, the content. The archive of a list of files
  is the concatenation of their records.
\<close>

definition encode_entry :: "dir_entry \<Rightarrow> bytes" where
  "encode_entry e = name e @ [NUL] @ encode_size (of_nat (length (content e))) @ content e"

definition encode_entries :: "dir_entry list \<Rightarrow> bytes" where
  "encode_entries es = concat (map encode_entry es)"

text \<open>Writing one file into the target folder under its base name.\<close>

definition store :: "dir_entry \<Rightarrow> (string \<rightharpoonup> bytes) \<Rightarrow> (string \<rightharpoonup> bytes)" where
  "store e m = m(name e \<mapsto> content e)"

text \<open>
  The target folder holds the files of the source folder, under their base names and
  with their bytes, and no other file.
\<close>

definition reproduces :: "folder \<Rightarrow> target \<Rightarrow> bool" where
  "reproduces F T =
     (list_all (\<lambda>e. tfiles T (name e) = Some (content e)) (regular_entries F)
      \<and> dom (tfiles T) = name ` set (regular_entries F))"

section \<open>Folders the lemmas are about\<close>

text \<open>
  A folder of a real file system: it is a directory, no two entries have the same path,
  a file name is a plain name without a zero byte, and a file's length fits the 64-bit
  size \<^verbatim>\<open>fs::file_size\<close> returns.
\<close>

definition wf_folder :: "folder \<Rightarrow> bool" where
  "wf_folder F =
     (is_dir F \<and> distinct (map rel_string (entries F)) \<and>
      (\<forall>e\<in>set (entries F). plain_name (name e) \<and> NUL \<notin> set (name e) \<and> length (content e) < 2 ^ 64))"

text \<open>
  Every regular file can be opened for reading; no regular file is empty, but possibly
  the last one of the scan; every regular file fits an array the machine hands out; and
  every regular file can be created in the target folder.
\<close>

definition all_readable :: "folder \<Rightarrow> bool" where
  "all_readable F = (\<forall>e\<in>set (regular_entries F). readable e)"

definition empty_only_last :: "folder \<Rightarrow> bool" where
  "empty_only_last F = (\<forall>e\<in>set (butlast (regular_entries F)). content e \<noteq> [])"

definition fits :: "folder \<Rightarrow> nat \<Rightarrow> bool" where
  "fits F mem = (\<forall>e\<in>set (regular_entries F). length (content e) \<le> mem)"

definition can_create_all :: "folder \<Rightarrow> target \<Rightarrow> bool" where
  "can_create_all F T = (\<forall>e\<in>set (regular_entries F). creatable T (name e))"

text \<open>What the verifier keeps of a record in \<^verbatim>\<open>archivedFiles\<close>: the path is never set.\<close>

definition record_of :: "dir_entry \<Rightarrow> FileInfo" where
  "record_of e = \<lparr>filename = name e, path = [], fsize = of_nat (length (content e))\<rparr>"

text \<open>
  No regular file lies in a subdirectory; and every regular file holds a zero byte, so
  that \<^verbatim>\<open>strcmp\<close> on its bytes stays inside the buffer.
\<close>

definition flat :: "folder \<Rightarrow> bool" where
  "flat F = (\<forall>e\<in>set (regular_entries F). parent e = [])"

definition zero_in_every_file :: "folder \<Rightarrow> bool" where
  "zero_in_every_file F = (\<forall>e\<in>set (regular_entries F). NUL \<in> set (content e))"

section \<open>Concrete inputs\<close>

text \<open>
  A folder that is a directory, given by its scan and by what the file system finds for
  names with path components; a file that can be read; no archive yet; an empty target
  folder in which every file can be created.
\<close>

definition scanned :: "dir_entry list \<Rightarrow> (string \<Rightarrow> dir_entry option) \<Rightarrow> folder" where
  "scanned es w = \<lparr>is_dir = True, entries = es, elsewhere = w\<rparr>"

definition nothing_elsewhere :: "string \<Rightarrow> dir_entry option" where
  "nothing_elsewhere = (\<lambda>n. None)"

definition junk_marks :: junk where
  "junk_marks = (\<lambda>k i. CHR ''?'')"

definition absent_archive :: disk_file where
  "absent_archive = \<lparr>fcontent = None, fread_ok = True, fwrite_ok = True\<rparr>"

definition plain_file :: "string list \<Rightarrow> string \<Rightarrow> bytes \<Rightarrow> dir_entry" where
  "plain_file p n c = \<lparr>parent = p, name = n, kind = Regular, content = c, readable = True\<rparr>"

definition empty_target :: target where
  "empty_target = \<lparr>can_mkdir = True, creatable = (\<lambda>n. True), tfiles = Map.empty\<rparr>"

definition binary_folder :: "(string \<Rightarrow> dir_entry option) \<Rightarrow> folder" where
  "binary_folder = scanned [plain_file [] ''a.bin'' [CHR ''a'', NUL, CHR ''b'']]"

definition binary_folder_changed :: "(string \<Rightarrow> dir_entry option) \<Rightarrow> folder" where
  "binary_folder_changed = scanned [plain_file [] ''a.bin'' [CHR ''a'', NUL, CHR ''c'']]"

definition binary_archive :: disk_file where
  "binary_archive =
     \<lparr>fcontent = Some (''a.bin'' @ [NUL] @ encode_size 3 @ [CHR ''a'', NUL, CHR ''b'']),
      fread_ok = True, fwrite_ok = True\<rparr>"


definition text_folder :: "(string \<Rightarrow> dir_entry option) \<Rightarrow> folder" where
  "text_folder = scanned [plain_file [] ''a.txt'' ''xyz'']"

definition text_archive :: disk_file where
  "text_archive =
     \<lparr>fcontent = Some (''a.txt'' @ [NUL] @ encode_size 3 @ ''xyz''), fread_ok = True, fwrite_ok = True\<rparr>"

definition empty_first_folder :: "(string \<Rightarrow> dir_entry option) \<Rightarrow> folder" where
  "empty_first_folder = scanned [plain_file [] ''b.bin'' [], plain_file [] ''a.txt'' ''xyz'']"

definition header_only_archive :: disk_file where
  "header_only_archive =
     \<lparr>fcontent = Some (''b.bin'' @ [NUL] @ encode_size 0), fread_ok = True, fwrite_ok = True\<rparr>"

definition folder_with_locked_file :: "(string \<Rightarrow> dir_entry option) \<Rightarrow> folder" where
  "folder_with_locked_file =
     scanned [\<lparr>parent = [], name = ''a.txt'', kind = Regular, content = ''x'', readable = False\<rparr>,
              plain_file [] ''b.txt'' ''y'']"

definition two_records :: disk_file where
  "two_records =
     \<lparr>fcontent = Some (''a'' @ [NUL] @ encode_size 1 @ ''A'' @ ''b'' @ [NUL] @ encode_size 1 @ ''B''),
      fread_ok = True, fwrite_ok = True\<rparr>"

definition target_refusing_a :: target where
  "target_refusing_a = \<lparr>can_mkdir = True, creatable = (\<lambda>n. n \<noteq> ''a''), tfiles = Map.empty\<rparr>"

definition truncated_archive :: disk_file where
  "truncated_archive =
     \<lparr>fcontent = Some (''a'' @ [NUL] @ encode_size 5 @ ''xy''), fread_ok = True, fwrite_ok = True\<rparr>"

definition same_name_folder :: "(string \<Rightarrow> dir_entry option) \<Rightarrow> folder" where
  "same_name_folder = scanned [plain_file [''x''] ''a'' [], plain_file [''y''] ''a'' ''2'']"

definition one_record_archive :: disk_file where
  "one_record_archive =
     \<lparr>fcontent = Some (''a'' @ [NUL] @ encode_size 0), fread_ok = True, fwrite_ok = True\<rparr>"

definition folder_with_new_file :: "(string \<Rightarrow> dir_entry option) \<Rightarrow> folder" where
  "folder_with_new_file =
     scanned [plain_file [] ''a.bin'' [CHR ''a'', NUL, CHR ''b''], plain_file [] ''new.txt'' ''hi'']"

definition two_a_bin_folder :: "(string \<Rightarrow> dir_entry option) \<Rightarrow> folder" where
  "two_a_bin_folder =
     scanned [plain_file [] ''a.bin'' [CHR ''a'', NUL, CHR ''b''],
              \<lparr>parent = [], name = ''sub'', kind = Directory, content = [], readable = True\<rparr>,
              plain_file [''sub''] ''a.bin'' [CHR ''a'', NUL, CHR ''b'']]"

definition dot_slash :: "string \<Rightarrow> dir_entry option" where
  "dot_slash n =
     (if n = ''./a.bin'' then Some (plain_file [] ''a.bin'' [CHR ''a'', NUL, CHR ''b'']) else None)"

definition dot_slash_archive :: disk_file where
  "dot_slash_archive =
     \<lparr>fcontent = Some (''a.bin'' @ [NUL] @ encode_size 3 @ [CHR ''a'', NUL, CHR ''b'']
                       @ ''./a.bin'' @ [NUL] @ encode_size 3 @ [CHR ''a'', NUL, CHR ''b'']),
      fread_ok = True, fwrite_ok = True\<rparr>"

definition two_a_bin_archive :: disk_file where
  "two_a_bin_archive =
     \<lparr>fcontent = Some (''a.bin'' @ [NUL] @ encode_size 3 @ [CHR ''a'', NUL, CHR ''b'']
                       @ ''a.bin'' @ [NUL] @ encode_size 3 @ [CHR ''a'', NUL, CHR ''b'']),
      fread_ok = True, fwrite_ok = True\<rparr>"

section \<open>Lemmas on the size field and the streams\<close>

lemma length_bytes_le [simp]: "length (bytes_le k v) = k"
  by (induction k arbitrary: v) simp_all

lemma le_nat_bytes_le: "le_nat (bytes_le k v) = v mod 256 ^ k"
proof (induction k arbitrary: v)
  case 0
  show ?case by simp
next
  case (Suc k)
  have "v mod 256 + 256 * (v div 256 mod 256 ^ k) = v mod (256 * 256 ^ k)"
    by (simp add: mod_mult2_eq)
  with Suc show ?case by simp
qed

lemma decode_encode_size [simp]: "decode_size (encode_size w) = w"
proof -
  have "unat w < 2 ^ 64" using unsigned_less [of w] by simp
  also have "(2::nat) ^ 64 = 256 ^ 8" by simp
  finally have "unat w mod 256 ^ 8 = unat w" by (rule mod_less)
  then show ?thesis unfolding decode_size_def encode_size_def le_nat_bytes_le by simp
qed

lemma length_encode_size [simp]: "length (encode_size w) = 8"
  by (simp add: encode_size_def)

lemma unat_of_nat_length:
  "n < 2 ^ 64 \<Longrightarrow> unat (of_nat n :: 64 word) = n"
  by (simp add: unat_of_nat)

lemma length_fresh [simp]: "length (fresh jk k n) = n"
  by (simp add: fresh_def)

lemma igood_opened [simp]: "igood (opened bs)"
  by (simp add: igood_def opened_def)

lemma getline_name:
  assumes "igood s" "ibuf s = n @ NUL # rest" "NUL \<notin> set n"
  shows "getline s = (n, s\<lparr>ibuf := rest\<rparr>)"
proof -
  have d: "dropWhile (\<lambda>c. c \<noteq> NUL) (n @ NUL # rest) = NUL # rest"
    using assms(3) by (induction n) auto
  have t: "takeWhile (\<lambda>c. c \<noteq> NUL) (n @ NUL # rest) = n"
    using assms(3) by (induction n) auto
  show ?thesis
    using assms(1) by (simp add: getline_def assms(2) d t)
qed

lemma sread_exact:
  assumes "igood s" "ibuf s = xs @ rest" "length xs = n"
  shows "sread n init s = (xs, s\<lparr>ibuf := rest\<rparr>)"
  using assms by (simp add: sread_def)

lemma sread_short:
  assumes "igood s" "length (ibuf s) < n"
  shows "sread n init s = (ibuf s @ drop (length (ibuf s)) init, s\<lparr>ibuf := [], ieof := True, ifail := True\<rparr>)"
  using assms by (simp add: sread_def)

lemma igood_ibuf_update [simp]: "igood (s\<lparr>ibuf := b\<rparr>) = igood s"
  by (simp add: igood_def)

lemma encode_entries_Nil [simp]: "encode_entries [] = []"
  by (simp add: encode_entries_def)

lemma encode_entries_Cons:
  "encode_entries (e # es) =
     name e @ NUL # encode_size (of_nat (length (content e))) @ content e @ encode_entries es"
  by (simp add: encode_entries_def encode_entry_def)

section \<open>More memory changes nothing but the failure of an allocation\<close>

lemma new_chars_more_memory:
  "new_chars jk mem k n = Inr b \<Longrightarrow> new_chars jk (mem + d) k n = Inr b"
  by (auto simp: new_chars_def split: if_splits)

lemma new_chars_fault:
  "new_chars jk mem k n = Inl f \<Longrightarrow> f = BadAlloc"
  by (auto simp: new_chars_def split: if_splits)

lemma check_records_more_memory:
  "check_records jk mem k F s acc = r \<Longrightarrow> r \<noteq> Inl BadAlloc \<Longrightarrow>
   check_records jk (mem + d) k F s acc = r"
proof (induction jk mem k F s acc arbitrary: r rule: check_records.induct)
  case (1 jk mem k F s acc)
  show ?case
    using "1.prems" "1.IH"
    apply (subst (asm) check_records.simps)
    apply (subst check_records.simps)
    apply (auto split: prod.splits sum.splits option.splits if_splits
        dest: new_chars_fault simp: new_chars_more_memory)
    done
qed

lemma unarchive_records_more_memory:
  "unarchive_records jk mem k s T log = r \<Longrightarrow> r \<noteq> Inl BadAlloc \<Longrightarrow>
   unarchive_records jk (mem + d) k s T log = r"
proof (induction jk mem k s T log arbitrary: r rule: unarchive_records.induct)
  case (1 jk mem k s T log)
  show ?case
    using "1.prems" "1.IH"
    apply (subst (asm) unarchive_records.simps)
    apply (subst unarchive_records.simps)
    apply (auto split: prod.splits sum.splits if_splits
        dest: new_chars_fault simp: new_chars_more_memory)
    done
qed

lemma checkArchive_more_memory:
  assumes "checkArchive jk mem a F = r" "r \<noteq> Inl BadAlloc"
  shows "checkArchive jk (mem + d) a F = r"
proof (cases "open_disk a")
  case None
  then show ?thesis
    using assms by (simp add: checkArchive_def)
next
  case (Some s)
  have "check_records jk mem 0 F s [] \<noteq> Inl BadAlloc"
    using assms Some by (auto simp: checkArchive_def)
  then have "check_records jk (mem + d) 0 F s [] = check_records jk mem 0 F s []"
    by (intro check_records_more_memory) simp_all
  then show ?thesis
    using assms Some by (simp add: checkArchive_def)
qed

lemma archiveFiles_more_memory:
  assumes "archiveFiles jk mem F a = r" "r \<noteq> Inl BadAlloc"
  shows "archiveFiles jk (mem + d) F a = r"
proof -
  have "checkArchive jk mem a F \<noteq> Inl BadAlloc"
    using assms by (auto simp: archiveFiles_def)
  then have "checkArchive jk (mem + d) a F = checkArchive jk mem a F"
    by (intro checkArchive_more_memory) simp_all
  then show ?thesis
    using assms by (simp add: archiveFiles_def)
qed

lemma unarchiveFiles_more_memory:
  assumes "unarchiveFiles jk mem a T = r" "r \<noteq> Inl BadAlloc"
  shows "unarchiveFiles jk (mem + d) a T = r"
proof (cases "open_disk a")
  case None
  then show ?thesis
    using assms by (simp add: unarchiveFiles_def)
next
  case (Some s)
  show ?thesis
  proof (cases "can_mkdir T")
    case False
    then show ?thesis
      using assms Some by (simp add: unarchiveFiles_def)
  next
    case True
    have "unarchive_records jk mem 0 s T [] \<noteq> Inl BadAlloc"
      using assms Some True by (auto simp: unarchiveFiles_def)
    then have "unarchive_records jk (mem + d) 0 s T [] = unarchive_records jk mem 0 s T []"
      by (intro unarchive_records_more_memory) simp_all
    then show ?thesis
      using assms Some True by (simp add: unarchiveFiles_def)
  qed
qed

section \<open>Steps of the loops\<close>

lemma new_chars_ok [simp]: "n \<le> mem \<Longrightarrow> new_chars jk mem k n = Inr (fresh jk k n)"
  by (simp add: new_chars_def)

lemma new_chars_fails [simp]: "mem < n \<Longrightarrow> new_chars jk mem k n = Inl BadAlloc"
  by (simp add: new_chars_def)

lemma check_records_end:
  assumes "igood s" "ibuf s = []"
  shows "check_records jk mem k F s acc = Inr (Matched acc)"
  using assms
  by (subst check_records.simps) (simp add: getline_def igood_def)

lemma unarchive_records_end:
  assumes "igood s" "ibuf s = []"
  shows "unarchive_records jk mem k s T log = Inr (T, log)"
  using assms
  by (subst unarchive_records.simps) (simp add: getline_def igood_def)

lemma header_read:
  assumes "igood s" "ibuf s = n @ NUL # encode_size sz @ rest" "NUL \<notin> set n"
  shows "getline s = (n, s\<lparr>ibuf := encode_size sz @ rest\<rparr>)"
    and "sread 8 init (s\<lparr>ibuf := encode_size sz @ rest\<rparr>) = (encode_size sz, s\<lparr>ibuf := rest\<rparr>)"
proof -
  show "getline s = (n, s\<lparr>ibuf := encode_size sz @ rest\<rparr>)"
    using assms by (intro getline_name) simp_all
  show "sread 8 init (s\<lparr>ibuf := encode_size sz @ rest\<rparr>) = (encode_size sz, s\<lparr>ibuf := rest\<rparr>)"
    using assms(1) sread_exact [of "s\<lparr>ibuf := encode_size sz @ rest\<rparr>" "encode_size sz" rest 8]
    by simp
qed

lemma unarchive_records_step:
  assumes "igood s" "ibuf s = n @ NUL # encode_size sz @ c @ rest"
    and "n \<noteq> []" "NUL \<notin> set n" "length c = unat sz" "creatable T n" "unat sz \<le> mem"
  shows "unarchive_records jk mem k s T log =
         unarchive_records jk mem (k + 2) (s\<lparr>ibuf := rest\<rparr>) (T\<lparr>tfiles := (tfiles T)(n \<mapsto> c)\<rparr>) log"
proof -
  note h = header_read [OF assms(1,2,4)]
  have r2: "\<And>init. sread (unat sz) init (s\<lparr>ibuf := c @ rest\<rparr>) = (c, s\<lparr>ibuf := rest\<rparr>)"
    using assms(1,5) sread_exact [of "s\<lparr>ibuf := c @ rest\<rparr>" c rest "unat sz"]
    by simp
  have e: "\<not> ieof s" using assms(1) by (simp add: igood_def)
  show ?thesis
    by (subst unarchive_records.simps) (simp add: h r2 e assms(3,6,7))
qed

lemma unarchive_records_refused:
  assumes "igood s" "ibuf s = n @ NUL # encode_size sz @ rest"
    and "n \<noteq> []" "NUL \<notin> set n" "\<not> creatable T n"
  shows "unarchive_records jk mem k s T log =
         unarchive_records jk mem (k + 1) (s\<lparr>ibuf := rest\<rparr>) T (log @ [msg_create_file n])"
proof -
  note h = header_read [OF assms(1,2,4)]
  have e: "\<not> ieof s" using assms(1) by (simp add: igood_def)
  show ?thesis
    by (subst unarchive_records.simps) (simp add: h e assms(3,5))
qed

lemma unarchive_records_truncated:
  assumes "igood s" "ibuf s = n @ NUL # encode_size sz @ rest"
    and "n \<noteq> []" "NUL \<notin> set n" "creatable T n" "length rest < unat sz" "unat sz \<le> mem"
  shows "unarchive_records jk mem k s T log =
         Inr (T\<lparr>tfiles := (tfiles T)(n \<mapsto> rest @ drop (length rest) (fresh jk (k + 1) (unat sz)))\<rparr>, log)"
proof -
  note h = header_read [OF assms(1,2,4)]
  have r2: "\<And>init. sread (unat sz) init (s\<lparr>ibuf := rest\<rparr>)
              = (rest @ drop (length rest) init, s\<lparr>ibuf := [], ieof := True, ifail := True\<rparr>)"
    using assms(1,6) sread_short [of "s\<lparr>ibuf := rest\<rparr>" "unat sz"] by simp
  have e: "\<not> ieof s" using assms(1) by (simp add: igood_def)
  have f: "\<And>k' T'. unarchive_records jk mem k' (s\<lparr>ibuf := [], ieof := True, ifail := True\<rparr>) T' log
              = Inr (T', log)"
    by (subst unarchive_records.simps) simp
  show ?thesis
    by (subst unarchive_records.simps) (simp add: h r2 e f assms(3,5,7))
qed

lemma unarchive_records_bad_alloc:
  assumes "igood s" "ibuf s = n @ NUL # encode_size sz @ rest"
    and "n \<noteq> []" "NUL \<notin> set n" "creatable T n" "mem < unat sz"
  shows "unarchive_records jk mem k s T log = Inl BadAlloc"
proof -
  note h = header_read [OF assms(1,2,4)]
  have e: "\<not> ieof s" using assms(1) by (simp add: igood_def)
  show ?thesis
    by (subst unarchive_records.simps) (simp add: h e assms(3,5,6))
qed

text \<open>
  A declared size beyond what the machine hands out: \<^verbatim>\<open>new char[fileInfo.size]\<close> throws,
  nothing catches the exception, and the run ends there, after the output file has
  been created.
\<close>

lemma declared_size_beyond_memory_aborts:
  assumes "fcontent a = Some (n @ NUL # encode_size sz @ rest)" "fread_ok a" "can_mkdir T"
    and "n \<noteq> []" "NUL \<notin> set n" "creatable T n" "mem < unat sz"
  shows "unarchiveFiles jk mem a T = Inl BadAlloc"
proof -
  have "unarchive_records jk mem 0 (opened (n @ NUL # encode_size sz @ rest)) T [] = Inl BadAlloc"
    using assms(4-7) by (intro unarchive_records_bad_alloc) (simp_all add: opened_def igood_def)
  then show ?thesis
    using assms(1-3) by (simp add: unarchiveFiles_def open_disk_def)
qed

section \<open>What the loop of the verifier has matched\<close>

lemma file_size_regular:
  "file_size F n = Inr z \<Longrightarrow> \<exists>e. lookup F n = Some e \<and> kind e = Regular"
  by (auto simp: file_size_def split: option.splits if_splits)

lemma check_records_stop:
  "ieof s \<or> fst (getline s) = [] \<Longrightarrow> check_records jk mem k F s acc = Inr (Matched acc)"
  by (subst check_records.simps) (auto split: prod.splits)

lemma check_records_next:
  assumes "check_records jk mem k F s acc = Inr (Matched recs)"
    and "\<not> ieof s" "fst (getline s) \<noteq> []"
  shows "\<exists>s3 sz e. lookup F (fst (getline s)) = Some e \<and> kind e = Regular
           \<and> length (ibuf s3) < length (ibuf s)
           \<and> check_records jk mem (k + 3) F s3
                (acc @ [\<lparr>filename = fst (getline s), path = [], fsize = sz\<rparr>]) = Inr (Matched recs)"
proof -
  obtain n s1 where g: "getline s = (n, s1)"
    by (cases "getline s") auto
  obtain szb s2 where r: "sread 8 (fresh jk k 8) s1 = (szb, s2)"
    by (cases "sread 8 (fresh jk k 8) s1") auto
  have n: "n \<noteq> []"
    using assms(3) g by simp
  have l1: "length (ibuf s1) < length (ibuf s)"
    using g n by (rule getline_shorter)
  have l2: "length (ibuf s2) \<le> length (ibuf s1)"
    using r by (rule sread_shorter)
  have u: "check_records jk mem k F s acc =
       (if \<not> exists_path F n then Inr Mismatch
        else
          (case file_size F n of
             Inl f \<Rightarrow> Inl f
           | Inr fsz \<Rightarrow>
               if fsz \<noteq> decode_size szb then Inr Mismatch
               else
                 (case new_chars jk mem (k + 1) (unat (decode_size szb)) of
                    Inl f \<Rightarrow> Inl f
                  | Inr a0 \<Rightarrow>
                 (case new_chars jk mem (k + 2) (unat fsz) of
                    Inl f \<Rightarrow> Inl f
                  | Inr f0 \<Rightarrow>
                 (case sread (unat (decode_size szb)) a0 s2 of
                    (bufferArchive, s3) \<Rightarrow>
                      (case strcmp bufferArchive
                              (case ifstream (lookup F n) of
                                 None \<Rightarrow> f0
                               | Some folderFile \<Rightarrow> fst (sread (unat fsz) f0 folderFile)) of
                         None \<Rightarrow> Inl OutOfBounds
                       | Some r \<Rightarrow>
                           if r \<noteq> 0 then Inr Mismatch
                           else check_records jk mem (k + 3) F s3
                                  (acc @ [\<lparr>filename = n, path = [], fsize = decode_size szb\<rparr>])))))))"
    using assms(2) n by (subst check_records.simps) (simp add: g r)
  have "\<exists>e a0 b s3. lookup F n = Some e \<and> kind e = Regular
           \<and> sread (unat (decode_size szb)) a0 s2 = (b, s3)
           \<and> check_records jk mem (k + 3) F s3
                (acc @ [\<lparr>filename = n, path = [], fsize = decode_size szb\<rparr>]) = Inr (Matched recs)"
    using assms(1) unfolding u
    by (auto split: sum.splits option.splits if_splits prod.splits dest!: file_size_regular)
  then obtain e a0 b s3
    where e: "lookup F n = Some e" "kind e = Regular"
      and s3: "sread (unat (decode_size szb)) a0 s2 = (b, s3)"
      and c: "check_records jk mem (k + 3) F s3
                (acc @ [\<lparr>filename = n, path = [], fsize = decode_size szb\<rparr>]) = Inr (Matched recs)"
    by blast
  have "length (ibuf s3) \<le> length (ibuf s2)"
    using s3 by (rule sread_shorter)
  then have "length (ibuf s3) < length (ibuf s)"
    using l1 l2 by simp
  then show ?thesis
    using e c g by auto
qed

lemma check_records_matched:
  "check_records jk mem k F s acc = Inr (Matched recs) \<Longrightarrow>
   \<exists>new. recs = acc @ new
     \<and> (\<forall>r\<in>set new. \<exists>e. lookup F (filename r) = Some e \<and> kind e = Regular)"
proof (induction "length (ibuf s)" arbitrary: s k acc rule: less_induct)
  case less
  show ?case
  proof (cases "ieof s \<or> fst (getline s) = []")
    case True
    then have "check_records jk mem k F s acc = Inr (Matched acc)"
      by (rule check_records_stop)
    then have "recs = acc"
      using less.prems by simp
    then show ?thesis by simp
  next
    case False
    then obtain s3 sz e where e: "lookup F (fst (getline s)) = Some e" "kind e = Regular"
      and l: "length (ibuf s3) < length (ibuf s)"
      and c: "check_records jk mem (k + 3) F s3
                (acc @ [\<lparr>filename = fst (getline s), path = [], fsize = sz\<rparr>]) = Inr (Matched recs)"
      using check_records_next [OF less.prems] by blast
    obtain new where n: "recs = (acc @ [\<lparr>filename = fst (getline s), path = [], fsize = sz\<rparr>]) @ new"
      "\<forall>r\<in>set new. \<exists>e. lookup F (filename r) = Some e \<and> kind e = Regular"
      using less.hyps [OF l c] by blast
    have "recs = acc @ (\<lparr>filename = fst (getline s), path = [], fsize = sz\<rparr> # new)"
      using n(1) by simp
    moreover have "\<forall>r\<in>set (\<lparr>filename = fst (getline s), path = [], fsize = sz\<rparr> # new).
                     \<exists>e. lookup F (filename r) = Some e \<and> kind e = Regular"
      using n(2) e by simp
    ultimately show ?thesis by blast
  qed
qed

lemma lookup_plain:
  "plain_name n \<Longrightarrow> lookup F n = Some e \<Longrightarrow> e \<in> set (entries F) \<and> parent e = [] \<and> name e = n"
  by (auto simp: lookup_def find_Some_iff split: if_splits)

lemma more_files_than_records:
  assumes "\<forall>r\<in>set recs. \<exists>e. lookup F (filename r) = Some e \<and> kind e = Regular"
    and "distinct (map filename recs)" "list_all plain_name (map filename recs)"
    and "x \<in> set (regular_entries F)"
    and "\<not> (parent x = [] \<and> name x \<in> set (map filename recs))"
  shows "length recs < length (regular_entries F)"
proof -
  define named where
    "named = filter (\<lambda>e. parent e = [] \<and> name e \<in> set (map filename recs)) (regular_entries F)"
  have "set (map filename recs) \<subseteq> name ` set named"
  proof
    fix n
    assume n: "n \<in> set (map filename recs)"
    then obtain r where r: "r \<in> set recs" "n = filename r"
      by auto
    then obtain e where e: "lookup F n = Some e" "kind e = Regular"
      using assms(1) by blast
    have "plain_name n"
      using assms(3) n by (auto simp: list_all_iff)
    then have "e \<in> set (entries F) \<and> parent e = [] \<and> name e = n"
      using e(1) by (rule lookup_plain)
    then have "e \<in> set named"
      using e(2) n by (simp add: named_def regular_entries_def)
    moreover have "name e = n"
      using \<open>e \<in> set (entries F) \<and> parent e = [] \<and> name e = n\<close> by simp
    ultimately show "n \<in> name ` set named"
      by auto
  qed
  then have "card (set (map filename recs)) \<le> card (name ` set named)"
    by (intro card_mono) simp_all
  also have "\<dots> \<le> card (set named)"
    by (intro card_image_le) simp
  also have "\<dots> \<le> length named"
    by (rule card_length)
  finally have "card (set (map filename recs)) \<le> length named" .
  moreover have "card (set (map filename recs)) = length (map filename recs)"
    using assms(2) by (rule distinct_card)
  ultimately have "length recs \<le> length named"
    by simp
  moreover have "length named < length (regular_entries F)"
    unfolding named_def using assms(4,5) by (intro length_filter_less) auto
  ultimately show ?thesis
    by simp
qed

lemma of_nat_32_inj:
  assumes "(of_nat m :: 32 word) = of_nat n" "m < 2 ^ 31" "n < 2 ^ 31"
  shows "m = n"
proof -
  have "unat (of_nat m :: 32 word) = unat (of_nat n :: 32 word)"
    using assms(1) by simp
  then have "m mod 2 ^ 32 = n mod 2 ^ 32"
    by (simp add: unat_of_nat)
  moreover have "m < 2 ^ 32" "n < 2 ^ 32"
    using assms(2,3) by simp_all
  ultimately show ?thesis by simp
qed

section \<open>What the round trip keeps\<close>

lemma find_distinct:
  "distinct (map f xs) \<Longrightarrow> x \<in> set xs \<Longrightarrow> find (\<lambda>y. f y = f x) xs = Some x"
  by (induction xs) (auto simp: image_iff)

lemma entry_at_entry:
  "is_dir F \<Longrightarrow> distinct (map rel_string (entries F)) \<Longrightarrow> e \<in> set (entries F) \<Longrightarrow>
   entry_at F (rel_string e) = Some e"
  by (simp add: entry_at_def find_distinct)

lemma open_file_entry:
  assumes "is_dir F" "distinct (map rel_string (entries F))" "e \<in> set (entries F)"
    and "kind e = Regular" "readable e"
  shows "ifstream (entry_at F (rel_string e)) = Some (opened (content e))"
  using assms by (simp add: ifstream_def entry_at_entry)

lemma write_record_ok:
  assumes "\<not> ofail os" "c \<noteq> []"
  shows "put_rdbuf (opened c) (owrite (encode_size sz) (owrite [NUL] (owrite n os)))
         = os\<lparr>obuf := obuf os @ n @ NUL # encode_size sz @ c\<rparr>"
  using assms by (simp add: put_rdbuf_def owrite_def opened_def)

lemma write_record_last:
  assumes "\<not> ofail os"
  shows "obuf (put_rdbuf (opened c) (owrite (encode_size sz) (owrite [NUL] (owrite n os))))
         = obuf os @ n @ NUL # encode_size sz @ c"
  using assms by (simp add: put_rdbuf_def owrite_def opened_def)

lemma write_records_encode:
  assumes "is_dir F" "distinct (map rel_string (entries F))" "set es \<subseteq> set (entries F)"
    and "\<forall>e\<in>set es. kind e = Regular \<and> readable e"
    and "\<forall>e\<in>set (butlast es). content e \<noteq> []"
    and "\<not> ofail os"
  shows "obuf (fst (write_records F (map file_info es) (os, log))) = obuf os @ encode_entries es
         \<and> snd (write_records F (map file_info es) (os, log)) = log"
  using assms(3-)
proof (induction es arbitrary: os)
  case Nil
  show ?case by simp
next
  case (Cons e es)
  let ?os1 = "owrite (encode_size (of_nat (length (content e)))) (owrite [NUL] (owrite (name e) os))"
  have o: "ifstream (entry_at F (rel_string e)) = Some (opened (content e))"
    using assms(1,2) Cons.prems by (intro open_file_entry) simp_all
  have s: "write_records F (map file_info (e # es)) (os, log)
        = write_records F (map file_info es) (put_rdbuf (opened (content e)) ?os1, log)"
    by (simp add: file_info_def o)
  show ?case
  proof (cases es)
    case Nil
    then show ?thesis
      using Cons.prems(4) s
      by (simp add: write_record_last encode_entries_Cons)
  next
    case (Cons e' es')
    then have ne: "content e \<noteq> []"
      using Cons.prems(3) by simp
    have w: "put_rdbuf (opened (content e)) ?os1
           = os\<lparr>obuf := obuf os @ name e @ NUL # encode_size (of_nat (length (content e))) @ content e\<rparr>"
      using Cons.prems(4) ne by (intro write_record_ok) simp_all
    have b: "\<forall>x\<in>set (butlast es). content x \<noteq> []"
      using Cons.prems(3) Cons by simp
    have "obuf (fst (write_records F (map file_info es)
               (os\<lparr>obuf := obuf os @ name e @ NUL # encode_size (of_nat (length (content e))) @ content e\<rparr>, log)))
          = obuf (os\<lparr>obuf := obuf os @ name e @ NUL # encode_size (of_nat (length (content e))) @ content e\<rparr>)
             @ encode_entries es
         \<and> snd (write_records F (map file_info es)
               (os\<lparr>obuf := obuf os @ name e @ NUL # encode_size (of_nat (length (content e))) @ content e\<rparr>, log))
          = log"
      by (rule Cons.IH) (use Cons.prems b in simp_all)
    then show ?thesis
      unfolding s w by (simp add: encode_entries_Cons)
  qed
qed

lemma archive_writes_encoding:
  assumes "wf_folder F" "all_readable F" "empty_only_last F"
    and "checkArchive jk mem a F = Inr False" "fwrite_ok a"
  shows "archiveFiles jk mem F a = Inr (a\<lparr>fcontent := Some (encode_entries (regular_entries F))\<rparr>, [msg_archived])"
proof -
  have "obuf (fst (write_records F (map file_info (regular_entries F)) (created, [])))
          = obuf created @ encode_entries (regular_entries F)
        \<and> snd (write_records F (map file_info (regular_entries F)) (created, [])) = []"
    using assms(1-3)
    by (intro write_records_encode)
      (auto simp: wf_folder_def all_readable_def empty_only_last_def regular_entries_def created_def)
  then obtain os where "write_records F (map file_info (regular_entries F)) (created, []) = (os, [])"
    and "obuf os = encode_entries (regular_entries F)"
    by (cases "write_records F (map file_info (regular_entries F)) (created, [])")
      (simp add: created_def)
  then show ?thesis
    using assms by (simp add: archiveFiles_def collect_def wf_folder_def)
qed

lemma unarchive_records_decode:
  assumes "\<forall>e\<in>set es. name e \<noteq> [] \<and> NUL \<notin> set (name e) \<and> length (content e) < 2 ^ 64
             \<and> creatable T (name e) \<and> length (content e) \<le> mem"
    and "igood s" "ibuf s = encode_entries es @ rest"
  shows "unarchive_records jk mem k s T log =
         unarchive_records jk mem (k + 2 * length es) (s\<lparr>ibuf := rest\<rparr>)
           (T\<lparr>tfiles := fold store es (tfiles T)\<rparr>) log"
  using assms
proof (induction es arbitrary: k s T)
  case Nil
  then have "s\<lparr>ibuf := rest\<rparr> = s" by (cases s) simp
  then show ?case by simp
next
  case (Cons e es)
  let ?sz = "of_nat (length (content e)) :: 64 word"
  have len: "length (content e) = unat ?sz"
    using Cons.prems(1) by (simp add: unat_of_nat_length)
  have "length (content e) \<le> mem"
    using Cons.prems(1) by simp
  then have fit: "unat ?sz \<le> mem"
    by (simp only: len [symmetric])
  have "unarchive_records jk mem k s T log =
        unarchive_records jk mem (k + 2) (s\<lparr>ibuf := encode_entries es @ rest\<rparr>)
          (T\<lparr>tfiles := (tfiles T)(name e \<mapsto> content e)\<rparr>) log"
    using Cons.prems(2) _ _ _ len _ fit
    by (rule unarchive_records_step) (use Cons.prems in \<open>simp_all add: encode_entries_Cons\<close>)
  also have "\<dots> = unarchive_records jk mem (k + 2 + 2 * length es)
          (s\<lparr>ibuf := encode_entries es @ rest, ibuf := rest\<rparr>)
          (T\<lparr>tfiles := (tfiles T)(name e \<mapsto> content e),
             tfiles := fold store es (tfiles (T\<lparr>tfiles := (tfiles T)(name e \<mapsto> content e)\<rparr>))\<rparr>) log"
    by (rule Cons.IH) (use Cons.prems in simp_all)
  finally show ?case
    unfolding store_def [of e "tfiles T", symmetric] by simp
qed

lemma unarchive_reads_encoding:
  assumes "wf_folder F" "can_create_all F T" "fits F mem" "can_mkdir T"
    and "fcontent a = Some (encode_entries (regular_entries F))" "fread_ok a"
  shows "unarchiveFiles jk mem a T
         = Inr (T\<lparr>tfiles := fold store (regular_entries F) (tfiles T)\<rparr>, [msg_unarchived])"
proof -
  let ?s = "opened (encode_entries (regular_entries F))"
  have "unarchive_records jk mem 0 ?s T []
        = unarchive_records jk mem (0 + 2 * length (regular_entries F)) (?s\<lparr>ibuf := []\<rparr>)
            (T\<lparr>tfiles := fold store (regular_entries F) (tfiles T)\<rparr>) []"
    using assms(1-3)
    by (intro unarchive_records_decode)
      (auto simp: wf_folder_def regular_entries_def opened_def igood_def can_create_all_def
        fits_def plain_name_def)
  also have "\<dots> = Inr (T\<lparr>tfiles := fold store (regular_entries F) (tfiles T)\<rparr>, [])"
    by (rule unarchive_records_end) simp_all
  finally show ?thesis
    using assms(4-) by (simp add: unarchiveFiles_def open_disk_def)
qed

lemma fold_store_other:
  "n \<notin> name ` set es \<Longrightarrow> fold store es m n = m n"
  by (induction es arbitrary: m) (auto simp: store_def)

lemma fold_store_last:
  "name e \<notin> name ` set zs \<Longrightarrow> fold store (ys @ e # zs) m (name e) = Some (content e)"
  by (simp add: fold_store_other) (simp add: store_def)

lemma dom_fold_store:
  "dom (fold store es m) = dom m \<union> name ` set es"
  by (induction es arbitrary: m) (auto simp: store_def)

lemma fold_store_distinct:
  assumes "distinct (map name es)" "e \<in> set es"
  shows "fold store es m (name e) = Some (content e)"
proof -
  obtain ys zs where s: "es = ys @ e # zs"
    using assms(2) by (auto simp: in_set_conv_decomp)
  then have "name e \<notin> name ` set zs"
    using assms(1) by auto
  then show ?thesis
    unfolding s by (rule fold_store_last)
qed

text \<open>
  What holds of the round trip: when the base names of the regular files are pairwise
  different, every file opens, none but the last of the scan is empty and every file
  fits the memory, the target folder ends with exactly the files of the source folder.
  With two files of one base name the later one remains.
\<close>

lemma round_trip_distinct_names:
  assumes "wf_folder F" "all_readable F" "empty_only_last F"
    and "distinct (map name (regular_entries F))"
    and "checkArchive jk mem a F = Inr False" "fwrite_ok a" "fread_ok a"
    and "can_mkdir T" "can_create_all F T" "fits F mem'" "tfiles T = Map.empty"
  shows "\<exists>a' T'. archiveFiles jk mem F a = Inr (a', [msg_archived])
           \<and> unarchiveFiles jk' mem' a' T = Inr (T', [msg_unarchived])
           \<and> reproduces F T'"
proof -
  let ?a = "a\<lparr>fcontent := Some (encode_entries (regular_entries F))\<rparr>"
  let ?T = "T\<lparr>tfiles := fold store (regular_entries F) (tfiles T)\<rparr>"
  have 1: "archiveFiles jk mem F a = Inr (?a, [msg_archived])"
    using assms(1-3,5,6) by (rule archive_writes_encoding)
  have 2: "unarchiveFiles jk' mem' ?a T = Inr (?T, [msg_unarchived])"
    using assms(1,9,10,8) by (rule unarchive_reads_encoding) (simp_all add: assms(7))
  have "\<forall>e\<in>set (regular_entries F). tfiles ?T (name e) = Some (content e)"
    using assms(4) by (simp add: fold_store_distinct)
  moreover have "dom (tfiles ?T) = name ` set (regular_entries F)"
    using assms(11) by (simp add: dom_fold_store)
  ultimately have 3: "reproduces F ?T"
    by (simp add: reproduces_def list_all_iff)
  show ?thesis
    using 1 2 3 by blast
qed

lemma same_base_name_later_record_wins:
  assumes "wf_folder F" "all_readable F" "empty_only_last F"
    and "checkArchive jk mem a F = Inr False" "fwrite_ok a" "fread_ok a"
    and "can_mkdir T" "can_create_all F T" "fits F mem'" "tfiles T = Map.empty"
    and "regular_entries F = xs @ e1 # ys @ e2 # zs"
    and "name e1 = name e2" "name e2 \<notin> name ` set zs"
  shows "\<exists>a' T'. archiveFiles jk mem F a = Inr (a', [msg_archived])
           \<and> fcontent a' = Some (encode_entries xs @ encode_entry e1 @ encode_entries ys
                                    @ encode_entry e2 @ encode_entries zs)
           \<and> unarchiveFiles jk' mem' a' T = Inr (T', [msg_unarchived])
           \<and> tfiles T' (name e2) = Some (content e2)
           \<and> card (dom (tfiles T')) < length (regular_entries F)"
proof -
  let ?a = "a\<lparr>fcontent := Some (encode_entries (regular_entries F))\<rparr>"
  let ?T = "T\<lparr>tfiles := fold store (regular_entries F) (tfiles T)\<rparr>"
  have 1: "archiveFiles jk mem F a = Inr (?a, [msg_archived])"
    using assms(1-5) by (rule archive_writes_encoding)
  have 2: "unarchiveFiles jk' mem' ?a T = Inr (?T, [msg_unarchived])"
    using assms(1,8,9,7) by (rule unarchive_reads_encoding) (simp_all add: assms(6))
  have 3: "fcontent ?a = Some (encode_entries xs @ encode_entry e1 @ encode_entries ys
                                    @ encode_entry e2 @ encode_entries zs)"
    by (simp add: assms(11) encode_entries_def)
  have "fold store ((xs @ e1 # ys) @ e2 # zs) (tfiles T) (name e2) = Some (content e2)"
    using assms(13) by (rule fold_store_last)
  then have 4: "tfiles ?T (name e2) = Some (content e2)"
    by (simp add: assms(11))
  have "\<not> distinct (map name (regular_entries F))"
    by (simp add: assms(11,12))
  then have "card (set (map name (regular_entries F))) \<noteq> length (map name (regular_entries F))"
    using card_distinct by blast
  then have "card (set (map name (regular_entries F))) < length (map name (regular_entries F))"
    using card_length [of "map name (regular_entries F)"] by linarith
  moreover have "dom (tfiles ?T) = set (map name (regular_entries F))"
    using assms(10) by (simp add: dom_fold_store)
  ultimately have 5: "card (dom (tfiles ?T)) < length (regular_entries F)"
    by simp
  show ?thesis
    using 1 2 3 4 5 by blast
qed

section \<open>When the second call skips\<close>

lemma strcmp_same:
  "NUL \<in> set c \<Longrightarrow> strcmp c c = Some 0"
  by (induction c) auto

lemma find_top:
  "distinct (map rel_string es) \<Longrightarrow> e \<in> set es \<Longrightarrow> parent e = [] \<Longrightarrow>
   find (\<lambda>x. parent x = [] \<and> name x = name e) es = Some e"
proof (induction es)
  case Nil
  then show ?case by simp
next
  case (Cons h es)
  show ?case
  proof (cases "h = e")
    case True
    then show ?thesis using Cons.prems by simp
  next
    case False
    then have e: "e \<in> set es"
      using Cons.prems by simp
    have "\<not> (parent h = [] \<and> name h = name e)"
    proof
      assume "parent h = [] \<and> name h = name e"
      then have "rel_string h = rel_string e"
        using Cons.prems(3) by (simp add: rel_string_def)
      then show False
        using Cons.prems(1) e by (auto simp: image_iff)
    qed
    then show ?thesis
      using Cons.IH Cons.prems e by auto
  qed
qed

lemma check_records_step:
  assumes "igood s"
    and "ibuf s = name e @ NUL # encode_size (of_nat (length (content e))) @ content e @ rest"
    and "name e \<noteq> []" "NUL \<notin> set (name e)" "length (content e) < 2 ^ 64"
    and "lookup F (name e) = Some e" "kind e = Regular" "readable e" "NUL \<in> set (content e)"
    and "length (content e) \<le> mem"
  shows "check_records jk mem k F s acc =
         check_records jk mem (k + 3) F (s\<lparr>ibuf := rest\<rparr>) (acc @ [record_of e])"
proof -
  let ?sz = "of_nat (length (content e)) :: 64 word"
  have len: "unat ?sz = length (content e)"
    using assms(5) by (simp add: unat_of_nat_length)
  note h = header_read [OF assms(1,2,4)]
  have r2: "\<And>init. sread (length (content e)) init (s\<lparr>ibuf := content e @ rest\<rparr>)
              = (content e, s\<lparr>ibuf := rest\<rparr>)"
    using assms(1) sread_exact [of "s\<lparr>ibuf := content e @ rest\<rparr>" "content e" rest "length (content e)"]
    by simp
  have r3: "\<And>init. sread (length (content e)) init (opened (content e)) = (content e, opened [])"
    by (simp add: sread_def opened_def igood_def)
  have x: "exists_path F (name e)" "file_size F (name e) = Inr ?sz"
    "ifstream (lookup F (name e)) = Some (opened (content e))"
    using assms(6-8) by (simp_all add: exists_path_def file_size_def ifstream_def)
  have c: "strcmp (content e) (content e) = Some 0"
    using assms(9) by (rule strcmp_same)
  have e: "\<not> ieof s" using assms(1) by (simp add: igood_def)
  show ?thesis
    by (subst check_records.simps)
      (simp add: h r2 r3 x c e len assms(3,10) record_of_def)
qed

lemma check_records_encoded:
  assumes "\<forall>e\<in>set es. name e \<noteq> [] \<and> NUL \<notin> set (name e) \<and> length (content e) < 2 ^ 64
             \<and> lookup F (name e) = Some e \<and> kind e = Regular \<and> readable e
             \<and> NUL \<in> set (content e) \<and> length (content e) \<le> mem"
    and "igood s" "ibuf s = encode_entries es @ rest"
  shows "check_records jk mem k F s acc =
         check_records jk mem (k + 3 * length es) F (s\<lparr>ibuf := rest\<rparr>) (acc @ map record_of es)"
  using assms
proof (induction es arbitrary: k s acc)
  case Nil
  then have "s\<lparr>ibuf := rest\<rparr> = s" by (cases s) simp
  then show ?case by simp
next
  case (Cons e es)
  have "check_records jk mem k F s acc =
        check_records jk mem (k + 3) F (s\<lparr>ibuf := encode_entries es @ rest\<rparr>) (acc @ [record_of e])"
    using Cons.prems
    by (intro check_records_step) (simp_all add: encode_entries_Cons)
  also have "\<dots> = check_records jk mem (k + 3 + 3 * length es) F
          (s\<lparr>ibuf := encode_entries es @ rest, ibuf := rest\<rparr>)
          ((acc @ [record_of e]) @ map record_of es)"
    by (rule Cons.IH) (use Cons.prems in simp_all)
  finally show ?case by (simp add: add.assoc)
qed

lemma check_own_archive:
  assumes "wf_folder F" "all_readable F" "flat F" "zero_in_every_file F" "fits F mem"
    and "fcontent a = Some (encode_entries (regular_entries F))" "fread_ok a"
  shows "checkArchive jk mem a F = Inr True"
proof -
  let ?s = "opened (encode_entries (regular_entries F))"
  have l: "lookup F (name e) = Some e" if "e \<in> set (regular_entries F)" for e
  proof -
    have e: "e \<in> set (entries F)" "parent e = []"
      using that assms(3) by (simp_all add: flat_def regular_entries_def)
    then have "plain_name (name e)"
      using assms(1) by (simp add: wf_folder_def)
    then show ?thesis
      using find_top [of "entries F" e] e assms(1) by (simp add: lookup_def wf_folder_def)
  qed
  have "check_records jk mem 0 F ?s []
        = check_records jk mem (0 + 3 * length (regular_entries F)) F (?s\<lparr>ibuf := []\<rparr>)
            ([] @ map record_of (regular_entries F))"
  proof (rule check_records_encoded)
    show "\<forall>e\<in>set (regular_entries F). name e \<noteq> [] \<and> NUL \<notin> set (name e)
             \<and> length (content e) < 2 ^ 64 \<and> lookup F (name e) = Some e \<and> kind e = Regular
             \<and> readable e \<and> NUL \<in> set (content e) \<and> length (content e) \<le> mem"
      using assms(1,2,4,5) l
      by (auto simp: wf_folder_def all_readable_def zero_in_every_file_def fits_def
          regular_entries_def plain_name_def)
  qed (simp_all add: opened_def igood_def)
  also have "\<dots> = Inr (Matched ([] @ map record_of (regular_entries F)))"
    by (rule check_records_end) (simp_all add: opened_def igood_def)
  finally show ?thesis
    using assms(1,6,7) by (simp add: checkArchive_def open_disk_def wf_folder_def)
qed

lemma archived_result:
  assumes "archiveFiles jk mem F a = Inr (a', [msg_archived])"
  shows "checkArchive jk mem a F = Inr False \<and> fwrite_ok a"
proof -
  have n: "msg_skipping \<noteq> msg_archived" "msg_archive_write \<noteq> msg_archived"
    by (simp_all add: msg_skipping_def msg_archived_def msg_archive_write_def)
  show ?thesis
    using assms n
    by (auto simp: archiveFiles_def split: sum.splits if_splits)
qed

text \<open>
  What holds of a second call: when every regular file lies directly in the folder,
  opens, holds a zero byte and fits the memory, and the first call has written the
  archive, the second call finds the archive equivalent and leaves it as it is.
\<close>

lemma second_call_skips:
  assumes "wf_folder F" "all_readable F" "flat F" "zero_in_every_file F" "fits F mem'"
    and "archiveFiles jk mem F a = Inr (a', [msg_archived])" "fread_ok a"
  shows "checkArchive jk' mem' a' F = Inr True \<and> archiveFiles jk' mem' F a' = Inr (a', [msg_skipping])"
proof -
  have n: "empty_only_last F"
    unfolding empty_only_last_def
  proof
    fix e
    assume "e \<in> set (butlast (regular_entries F))"
    then have "e \<in> set (regular_entries F)"
      by (rule in_set_butlastD)
    then have "NUL \<in> set (content e)"
      using assms(4) by (simp add: zero_in_every_file_def)
    then show "content e \<noteq> []"
      by auto
  qed
  have c: "checkArchive jk mem a F = Inr False" "fwrite_ok a"
    using archived_result [OF assms(6)] by simp_all
  have "archiveFiles jk mem F a
          = Inr (a\<lparr>fcontent := Some (encode_entries (regular_entries F))\<rparr>, [msg_archived])"
    using assms(1,2) n c by (rule archive_writes_encoding)
  then have a': "a' = a\<lparr>fcontent := Some (encode_entries (regular_entries F))\<rparr>"
    using assms(6) by simp
  have t: "checkArchive jk' mem' a' F = Inr True"
    using assms(1-5) by (rule check_own_archive) (simp_all add: a' assms(7))
  then show ?thesis
    by (simp add: archiveFiles_def)
qed

section \<open>The claims\<close>

text \<open>
  C1 (the claim fails on the code). The claim: the verifier's comparison is a full
  byte-for-byte equality check, so that a change of any single byte of a file, also one
  after an embedded zero byte, makes \<^verbatim>\<open>checkArchive\<close> return false and the next
  \<^verbatim>\<open>archiveFiles\<close> rewrite the archive. The code compares with \<^verbatim>\<open>strcmp\<close>, which stops
  at the first zero byte. The theorem runs the code, on any machine that hands out
  arrays of three bytes: the folder holds \<^verbatim>\<open>a.bin\<close> with the bytes \<open>a\<close>, zero, \<open>b\<close> and
  is archived; then the last byte becomes \<open>c\<close>; \<^verbatim>\<open>checkArchive\<close> returns true and
  \<^verbatim>\<open>archiveFiles\<close> leaves the stale archive as it is.
\<close>

theorem C1_change_after_zero_byte_missed:
  "archiveFiles jk m (binary_folder w) absent_archive = Inr (binary_archive, [msg_archived])
   \<and> checkArchive jk (3 + m) binary_archive (binary_folder_changed w) = Inr True
   \<and> archiveFiles jk (3 + m) (binary_folder_changed w) binary_archive
       = Inr (binary_archive, [msg_skipping])"
proof -
  have 1: "archiveFiles jk m (binary_folder w) absent_archive = Inr (binary_archive, [msg_archived])"
    by code_simp
  have "checkArchive jk 3 binary_archive (binary_folder_changed w) = Inr True"
    by code_simp
  then have 2: "checkArchive jk (3 + m) binary_archive (binary_folder_changed w) = Inr True"
    by (rule checkArchive_more_memory) simp
  have "archiveFiles jk 3 (binary_folder_changed w) binary_archive = Inr (binary_archive, [msg_skipping])"
    by code_simp
  then have 3: "archiveFiles jk (3 + m) (binary_folder_changed w) binary_archive
                 = Inr (binary_archive, [msg_skipping])"
    by (rule archiveFiles_more_memory) simp
  show ?thesis
    using 1 2 3 by simp
qed

text \<open>
  C2 (the claim fails on the code). The claim: for every folder, with files of any
  size, zero included, archiving and then extracting gives files with exactly the names,
  sizes and bytes of the folder's files. For an empty file
  \<^verbatim>\<open>archive << inputFile.rdbuf()\<close> inserts nothing and so sets \<^verbatim>\<open>failbit\<close> on the archive
  stream; nothing of the files after it reaches the archive. The theorem runs the code
  on the folder in which \<^verbatim>\<open>b.bin\<close> (empty) is scanned before \<^verbatim>\<open>a.txt\<close> (\<open>xyz\<close>): the
  archive is the header of \<^verbatim>\<open>b.bin\<close> alone, and extraction gives \<^verbatim>\<open>b.bin\<close> and no
  \<^verbatim>\<open>a.txt\<close>.
\<close>

theorem C2_empty_file_loses_later_files:
  "archiveFiles jk m (empty_first_folder w) absent_archive
     = Inr (header_only_archive, [msg_archived])
   \<and> unarchiveFiles jk' m' header_only_archive empty_target
     = Inr (empty_target\<lparr>tfiles := [''b.bin'' \<mapsto> []]\<rparr>, [msg_unarchived])
   \<and> \<not> reproduces (empty_first_folder w) (empty_target\<lparr>tfiles := [''b.bin'' \<mapsto> []]\<rparr>)"
proof -
  let ?s = "opened (''b.bin'' @ [NUL] @ encode_size 0)"
  have 1: "archiveFiles jk m (empty_first_folder w) absent_archive
            = Inr (header_only_archive, [msg_archived])"
    by code_simp
  have n: "NUL \<notin> set ''b.bin''"
    by (simp add: NUL_def)
  have "unarchive_records jk' m' 0 ?s empty_target []
        = unarchive_records jk' m' (0 + 2) (?s\<lparr>ibuf := []\<rparr>)
            (empty_target\<lparr>tfiles := (tfiles empty_target)(''b.bin'' \<mapsto> [])\<rparr>) []"
    by (rule unarchive_records_step [where sz = 0])
      (use n in \<open>simp_all add: opened_def empty_target_def igood_def\<close>)
  also have "\<dots> = Inr (empty_target\<lparr>tfiles := (tfiles empty_target)(''b.bin'' \<mapsto> [])\<rparr>, [])"
    by (rule unarchive_records_end) (simp_all add: opened_def igood_def)
  finally have 2: "unarchiveFiles jk' m' header_only_archive empty_target
     = Inr (empty_target\<lparr>tfiles := [''b.bin'' \<mapsto> []]\<rparr>, [msg_unarchived])"
    by (simp add: unarchiveFiles_def open_disk_def header_only_archive_def empty_target_def)
  have 3: "\<not> reproduces (empty_first_folder w) (empty_target\<lparr>tfiles := [''b.bin'' \<mapsto> []]\<rparr>)"
    by (simp add: reproduces_def regular_entries_def empty_first_folder_def scanned_def plain_file_def)
  show ?thesis
    using 1 2 3 by simp
qed

text \<open>
  C3 (the claim fails on the code). The claim: a second call of \<^verbatim>\<open>archiveFiles\<close> with
  the folder unchanged finds the archive equivalent and writes nothing. The verifier
  compares the two buffers with \<^verbatim>\<open>strcmp\<close>. For the folder with the one file \<^verbatim>\<open>a.txt\<close>
  (\<open>xyz\<close>) the first call writes the archive; in the second call the two buffers of
  three bytes are equal and hold no zero byte, and \<^verbatim>\<open>strcmp\<close> reads past the end of
  both: the behaviour is undefined, and the call does not end with the verifier's true.
\<close>

theorem C3_second_call_reads_past_the_buffers:
  "archiveFiles jk m (text_folder w) absent_archive = Inr (text_archive, [msg_archived])
   \<and> checkArchive jk' (3 + m') text_archive (text_folder w) = Inl OutOfBounds
   \<and> archiveFiles jk' (3 + m') (text_folder w) text_archive = Inl OutOfBounds"
proof -
  have 1: "archiveFiles jk m (text_folder w) absent_archive = Inr (text_archive, [msg_archived])"
    by code_simp
  have "checkArchive jk' 3 text_archive (text_folder w) = Inl OutOfBounds"
    by code_simp
  then have 2: "checkArchive jk' (3 + m') text_archive (text_folder w) = Inl OutOfBounds"
    by (rule checkArchive_more_memory) simp
  then have 3: "archiveFiles jk' (3 + m') (text_folder w) text_archive = Inl OutOfBounds"
    by (simp add: archiveFiles_def)
  show ?thesis
    using 1 2 3 by simp
qed

text \<open>
  C4 (the claim fails on the code). The claim: a scanned file that cannot be opened is
  skipped entirely, so that the archive is the encoding of exactly the files that open.
  The code writes the name, the delimiter and the size before it opens the file, and
  only then goes on to the next file. The theorem runs the code on a folder with
  \<^verbatim>\<open>a.txt\<close> (one byte, not readable) and \<^verbatim>\<open>b.txt\<close> (the byte \<open>y\<close>): the archive starts
  with the header of \<^verbatim>\<open>a.txt\<close> and no content for it, where the encoding of the file that
  opens is the record of \<^verbatim>\<open>b.txt\<close> alone.
\<close>

theorem C4_orphan_header_of_unopenable_file:
  "archiveFiles jk m (folder_with_locked_file w) absent_archive
     = Inr (absent_archive\<lparr>fcontent :=
              Some (''a.txt'' @ [NUL] @ encode_size 1 @ ''b.txt'' @ [NUL] @ encode_size 1 @ ''y'')\<rparr>,
            [msg_open_file ''a.txt'', msg_archived])
   \<and> encode_entries (filter readable (regular_entries (folder_with_locked_file w)))
     = ''b.txt'' @ [NUL] @ encode_size 1 @ ''y''"
  by code_simp

text \<open>
  C5 (the claim fails on the code). The claim: when the output file of a record cannot
  be created, the record's bytes are consumed from the stream and the records after it
  are decoded and written correctly. The code leaves the loop body before it reads the
  content. The theorem runs the code on an archive with the records \<^verbatim>\<open>a\<close> (content
  \<open>A\<close>) and \<^verbatim>\<open>b\<close> (content \<open>B\<close>), into a folder where \<^verbatim>\<open>a\<close> cannot be created: the
  unread byte \<open>A\<close> becomes the start of the next name, and the content of \<^verbatim>\<open>b\<close> is
  written to a file named \<^verbatim>\<open>Ab\<close>; no file \<^verbatim>\<open>b\<close> appears.
\<close>

theorem C5_unread_bytes_taken_for_a_name:
  "unarchiveFiles jk (1 + m) two_records target_refusing_a
     = Inr (target_refusing_a\<lparr>tfiles := [''Ab'' \<mapsto> ''B'']\<rparr>, [msg_create_file ''a'', msg_unarchived])"
proof -
  let ?s = "opened (''a'' @ [NUL] @ encode_size 1 @ ''A'' @ ''b'' @ [NUL] @ encode_size 1 @ ''B'')"
  have n: "NUL \<notin> set ''a''" "NUL \<notin> set ''Ab''"
    by (simp_all add: NUL_def)
  have u: "unat (1 :: 64 word) = Suc 0"
    by simp
  have "unarchive_records jk (1 + m) 0 ?s target_refusing_a []
        = unarchive_records jk (1 + m) (0 + 1) (?s\<lparr>ibuf := ''Ab'' @ NUL # encode_size 1 @ ''B'' @ []\<rparr>)
            target_refusing_a ([] @ [msg_create_file ''a''])"
    using n by (intro unarchive_records_refused) (simp_all add: opened_def target_refusing_a_def igood_def)
  also have "\<dots> = unarchive_records jk (1 + m) (0 + 1 + 2)
            (?s\<lparr>ibuf := ''Ab'' @ NUL # encode_size 1 @ ''B'' @ [], ibuf := []\<rparr>)
            (target_refusing_a\<lparr>tfiles := (tfiles target_refusing_a)(''Ab'' \<mapsto> ''B'')\<rparr>)
            ([] @ [msg_create_file ''a''])"
    by (rule unarchive_records_step [where sz = 1 and c = "''B''"])
      (use n u in \<open>simp_all add: opened_def target_refusing_a_def igood_def\<close>)
  also have "\<dots> = Inr (target_refusing_a\<lparr>tfiles := (tfiles target_refusing_a)(''Ab'' \<mapsto> ''B'')\<rparr>,
                     [] @ [msg_create_file ''a''])"
    by (rule unarchive_records_end) (simp_all add: opened_def igood_def)
  finally show ?thesis
    by (simp add: unarchiveFiles_def open_disk_def two_records_def target_refusing_a_def)
qed

text \<open>
  C6 (the claim fails on the code). The claim: a record that declares more bytes than
  the stream has left makes decoding fail with a truncation error, and no file of the
  declared size is written. The code never looks at what \<^verbatim>\<open>archive.read\<close> has read. On
  the archive with the one record \<^verbatim>\<open>a\<close> of declared size 5 and the two bytes \<open>xy\<close>
  left, on any machine that hands out arrays of five bytes, \<^verbatim>\<open>unarchiveFiles\<close> writes a
  file \<^verbatim>\<open>a\<close> of five bytes, \<open>xy\<close> and the three bytes the fresh buffer happened to hold
  at its end, and reports completion.
\<close>

theorem C6_truncated_record_written_in_full:
  "unarchiveFiles jk (5 + m) truncated_archive empty_target
     = Inr (empty_target\<lparr>tfiles := [''a'' \<mapsto> ''xy'' @ [jk 1 2, jk 1 3, jk 1 4]]\<rparr>,
            [msg_unarchived])"
proof -
  let ?s = "opened (''a'' @ [NUL] @ encode_size 5 @ ''xy'')"
  have n: "NUL \<notin> set ''a''"
    by (simp add: NUL_def)
  have u: "unat (5 :: 64 word) = 5"
    by simp
  have j: "''xy'' @ drop (length ''xy'') (fresh jk (0 + 1) (unat (5 :: 64 word)))
           = ''xy'' @ [jk 1 2, jk 1 3, jk 1 4]"
    by code_simp
  have "unarchive_records jk (5 + m) 0 ?s empty_target []
        = Inr (empty_target\<lparr>tfiles := (tfiles empty_target)
              (''a'' \<mapsto> ''xy'' @ drop (length ''xy'') (fresh jk (0 + 1) (unat (5 :: 64 word))))\<rparr>, [])"
    by (rule unarchive_records_truncated)
      (use n u in \<open>simp_all add: opened_def empty_target_def igood_def\<close>)
  then show ?thesis
    unfolding j
    by (simp add: unarchiveFiles_def open_disk_def truncated_archive_def empty_target_def)
qed

text \<open>
  C7 (the claim fails on the code). The claim: the count of the regular files is
  compared with the number of records, so that a folder with a file that is in no
  record is reported as not equivalent. Only the two numbers are compared. The folder
  with \<^verbatim>\<open>a.bin\<close> and \<^verbatim>\<open>sub/a.bin\<close> is archived to two records named \<^verbatim>\<open>a.bin\<close>. Against
  the folder with \<^verbatim>\<open>a.bin\<close> and the new file \<^verbatim>\<open>new.txt\<close> both records match \<^verbatim>\<open>a.bin\<close>, the
  counts are two and two, and \<^verbatim>\<open>checkArchive\<close> returns true. The same happens with an
  archive whose two records are named \<^verbatim>\<open>a.bin\<close> and \<^verbatim>\<open>./a.bin\<close>, which the file system
  resolves to the one file.
\<close>

theorem C7_counterexample:
  "archiveFiles junk_marks 1000000 (two_a_bin_folder nothing_elsewhere) absent_archive
     = Inr (two_a_bin_archive, [msg_archived])
   \<and> checkArchive junk_marks 1000000 two_a_bin_archive (folder_with_new_file nothing_elsewhere) = Inr True
   \<and> checkArchive junk_marks 1000000 dot_slash_archive (folder_with_new_file dot_slash) = Inr True"
proof -
  have "archiveFiles junk_marks 3 (two_a_bin_folder nothing_elsewhere) absent_archive
     = Inr (two_a_bin_archive, [msg_archived])"
    by code_simp
  then have 1: "archiveFiles junk_marks (3 + 999997) (two_a_bin_folder nothing_elsewhere) absent_archive
     = Inr (two_a_bin_archive, [msg_archived])"
    by (rule archiveFiles_more_memory) simp
  have "checkArchive junk_marks 3 two_a_bin_archive (folder_with_new_file nothing_elsewhere) = Inr True"
    by code_simp
  then have 2: "checkArchive junk_marks (3 + 999997) two_a_bin_archive
                  (folder_with_new_file nothing_elsewhere) = Inr True"
    by (rule checkArchive_more_memory) simp
  have "checkArchive junk_marks 3 dot_slash_archive (folder_with_new_file dot_slash) = Inr True"
    by code_simp
  then have 3: "checkArchive junk_marks (3 + 999997) dot_slash_archive
                  (folder_with_new_file dot_slash) = Inr True"
    by (rule checkArchive_more_memory) simp
  show ?thesis
    using 1 2 3 by simp
qed

text \<open>
  C7, as amended. Once the loop over the archive has read and matched all records,
  \<^verbatim>\<open>checkArchive\<close> counts the regular files below the folder (in subdirectories too) on
  its own and returns false whenever that count differs from the number of records
  (both are \<^verbatim>\<open>int\<close>s in the code, hence below \<open>2\<^sup>3\<^sup>1\<close>). So a folder with a regular file
  that no record names is reported as not equivalent whenever the names of the records
  are plain file names and pairwise different; an archive that holds a name twice can
  pass for a folder with a file that is in no record.
\<close>

theorem C7_files_counted_against_records:
  assumes "open_disk a = Some s" "check_records jk mem 0 F s [] = Inr (Matched recs)" "is_dir F"
    and "length (regular_entries F) < 2 ^ 31"
  shows "(length recs < 2 ^ 31 \<and> length (regular_entries F) \<noteq> length recs
            \<longrightarrow> checkArchive jk mem a F = Inr False)
         \<and> (distinct (map filename recs) \<and> list_all plain_name (map filename recs)
              \<and> x \<in> set (regular_entries F)
              \<and> \<not> (parent x = [] \<and> name x \<in> set (map filename recs))
            \<longrightarrow> length recs < length (regular_entries F) \<and> checkArchive jk mem a F = Inr False)"
proof -
  have d: "checkArchive jk mem a F = Inr False"
    if "length recs < 2 ^ 31" "length (regular_entries F) \<noteq> length recs"
  proof -
    have "(of_nat (length (regular_entries F)) :: 32 word) \<noteq> of_nat (length recs)"
      using of_nat_32_inj [of "length (regular_entries F)" "length recs"] that assms(4) by blast
    then show ?thesis
      using assms(1-3) by (simp add: checkArchive_def)
  qed
  have m: "\<forall>r\<in>set recs. \<exists>e. lookup F (filename r) = Some e \<and> kind e = Regular"
    using check_records_matched [OF assms(2)] by simp
  have e: "length recs < length (regular_entries F) \<and> checkArchive jk mem a F = Inr False"
    if "distinct (map filename recs)" "list_all plain_name (map filename recs)"
      "x \<in> set (regular_entries F)" "\<not> (parent x = [] \<and> name x \<in> set (map filename recs))"
  proof -
    have l: "length recs < length (regular_entries F)"
      using m that by (rule more_files_than_records)
    then have "length recs < 2 ^ 31" "length (regular_entries F) \<noteq> length recs"
      using assms(4) by simp_all
    then show ?thesis
      using d l by simp
  qed
  show ?thesis
    using d e by blast
qed

theorem C7_witness:
  "open_disk binary_archive = Some (opened (the (fcontent binary_archive)))
   \<and> check_records junk_marks 1000000 0 (folder_with_new_file nothing_elsewhere)
        (opened (the (fcontent binary_archive))) []
       = Inr (Matched [\<lparr>filename = ''a.bin'', path = [], fsize = 3\<rparr>])
   \<and> is_dir (folder_with_new_file nothing_elsewhere)
   \<and> length (regular_entries (folder_with_new_file nothing_elsewhere)) = 2
   \<and> plain_name ''a.bin''
   \<and> plain_file [] ''new.txt'' ''hi'' \<in> set (regular_entries (folder_with_new_file nothing_elsewhere))
   \<and> checkArchive junk_marks 1000000 binary_archive (folder_with_new_file nothing_elsewhere) = Inr False"
proof -
  let ?F = "folder_with_new_file nothing_elsewhere"
  let ?recs = "[\<lparr>filename = ''a.bin'', path = [], fsize = 3 :: 64 word\<rparr>]"
  have 1: "open_disk binary_archive = Some (opened (the (fcontent binary_archive)))"
    by code_simp
  have "check_records junk_marks 3 0 ?F (opened (the (fcontent binary_archive))) []
       = Inr (Matched ?recs)"
    by code_simp
  then have "check_records junk_marks (3 + 999997) 0 ?F (opened (the (fcontent binary_archive))) []
       = Inr (Matched ?recs)"
    by (rule check_records_more_memory) simp
  then have 2: "check_records junk_marks 1000000 0 ?F (opened (the (fcontent binary_archive))) []
       = Inr (Matched ?recs)"
    by simp
  have 3: "is_dir ?F"
    by (simp add: folder_with_new_file_def scanned_def)
  have 4: "length (regular_entries ?F) = 2"
    by code_simp
  have 5: "length (regular_entries ?F) < 2 ^ 31"
    using 4 by simp
  have 6: "plain_name ''a.bin''"
    by (simp add: plain_name_def)
  have 7: "plain_file [] ''new.txt'' ''hi'' \<in> set (regular_entries ?F)"
    by (simp add: regular_entries_def folder_with_new_file_def scanned_def plain_file_def)
  have 8: "distinct (map filename ?recs)" "list_all plain_name (map filename ?recs)"
    "\<not> (parent (plain_file [] ''new.txt'' ''hi'') = []
         \<and> name (plain_file [] ''new.txt'' ''hi'') \<in> set (map filename ?recs))"
    using 6 by (simp_all add: plain_file_def)
  show ?thesis
    using C7_files_counted_against_records [OF 1 2 3 5, of "plain_file [] ''new.txt'' ''hi''"]
      1 2 3 4 6 7 8 by simp
qed



text \<open>
  C9. For every archive path that does not exist or cannot be opened for reading,
  \<^verbatim>\<open>checkArchive\<close> returns false, an ordinary result and no fault; and
  \<^verbatim>\<open>archiveFiles\<close> then goes on to write the archive: when the archive opens for writing
  and the folder is a directory, the archive file holds what the writing loop has put
  out and the run ends with the message of completion.
\<close>

theorem C9_missing_archive_is_rebuilt:
  assumes "fcontent a = None \<or> \<not> fread_ok a"
  shows "checkArchive jk mem a F = Inr False
         \<and> (fwrite_ok a \<and> is_dir F \<longrightarrow>
              (\<exists>os log. write_records F (map file_info (regular_entries F)) (created, []) = (os, log)
                 \<and> archiveFiles jk mem F a = Inr (a\<lparr>fcontent := Some (obuf os)\<rparr>, log @ [msg_archived])))"
proof -
  have o: "open_disk a = None"
    using assms by (auto simp: open_disk_def split: option.splits)
  then have c: "checkArchive jk mem a F = Inr False"
    by (simp add: checkArchive_def)
  obtain os log where w: "write_records F (map file_info (regular_entries F)) (created, []) = (os, log)"
    by (cases "write_records F (map file_info (regular_entries F)) (created, [])") auto
  show ?thesis
    using c w by (simp add: archiveFiles_def collect_def)
qed

theorem C9_witness:
  "fcontent absent_archive = None
   \<and> checkArchive junk_marks 1000000 absent_archive (binary_folder nothing_elsewhere) = Inr False
   \<and> fwrite_ok absent_archive \<and> is_dir (binary_folder nothing_elsewhere)
   \<and> archiveFiles junk_marks 1000000 (binary_folder nothing_elsewhere) absent_archive
       = Inr (binary_archive, [msg_archived])"
proof -
  let ?F = "binary_folder nothing_elsewhere"
  have h: "fcontent absent_archive = None \<or> \<not> fread_ok absent_archive"
    by (simp add: absent_archive_def)
  have w: "write_records ?F (map file_info (regular_entries ?F)) (created, [])
           = (\<lparr>obuf = the (fcontent binary_archive), ofail = False\<rparr>, [])"
    by code_simp
  have e: "absent_archive\<lparr>fcontent := Some (the (fcontent binary_archive))\<rparr> = binary_archive"
    by (simp add: absent_archive_def binary_archive_def)
  have d: "fcontent absent_archive = None" "fwrite_ok absent_archive" "is_dir ?F"
    by (simp_all add: absent_archive_def binary_folder_def scanned_def)
  show ?thesis
    using C9_missing_archive_is_rebuilt [OF h, of junk_marks 1000000 ?F] w e d by simp
qed

text \<open>
  C10 (the claim fails on the code). The claim: for every folder with two regular files
  of one base name in different subdirectories, both are stored as records under that
  name, and after extraction the one file of that name holds the bytes of the later
  record. When the earlier of the two is empty, \<^verbatim>\<open>archive << inputFile.rdbuf()\<close> sets
  \<^verbatim>\<open>failbit\<close> on the archive stream and the later one is not stored at all. The theorem
  runs the code on the folder with \<^verbatim>\<open>x/a\<close> (empty) scanned before \<^verbatim>\<open>y/a\<close> (the byte
  \<open>2\<close>): the archive is the one record of the empty file, and extraction leaves \<^verbatim>\<open>a\<close>
  empty, the earlier file's content.
\<close>

theorem C10_empty_earlier_file_is_the_only_record:
  "archiveFiles jk m (same_name_folder w) absent_archive = Inr (one_record_archive, [msg_archived])
   \<and> fcontent one_record_archive = Some (encode_entry (plain_file [''x''] ''a'' []))
   \<and> unarchiveFiles jk' m' one_record_archive empty_target
     = Inr (empty_target\<lparr>tfiles := [''a'' \<mapsto> []]\<rparr>, [msg_unarchived])"
proof -
  let ?s = "opened (''a'' @ [NUL] @ encode_size 0)"
  have 1: "archiveFiles jk m (same_name_folder w) absent_archive
            = Inr (one_record_archive, [msg_archived])"
    by code_simp
  have 2: "fcontent one_record_archive = Some (encode_entry (plain_file [''x''] ''a'' []))"
    by code_simp
  have n: "NUL \<notin> set ''a''"
    by (simp add: NUL_def)
  have "unarchive_records jk' m' 0 ?s empty_target []
        = unarchive_records jk' m' (0 + 2) (?s\<lparr>ibuf := []\<rparr>)
            (empty_target\<lparr>tfiles := (tfiles empty_target)(''a'' \<mapsto> [])\<rparr>) []"
    by (rule unarchive_records_step [where sz = 0])
      (use n in \<open>simp_all add: opened_def empty_target_def igood_def\<close>)
  also have "\<dots> = Inr (empty_target\<lparr>tfiles := (tfiles empty_target)(''a'' \<mapsto> [])\<rparr>, [])"
    by (rule unarchive_records_end) (simp_all add: opened_def igood_def)
  finally have 3: "unarchiveFiles jk' m' one_record_archive empty_target
     = Inr (empty_target\<lparr>tfiles := [''a'' \<mapsto> []]\<rparr>, [msg_unarchived])"
    by (simp add: unarchiveFiles_def open_disk_def one_record_archive_def empty_target_def)
  show ?thesis
    using 1 2 3 by simp
qed

end
